theory Spec2Isabelle
  imports Complex_Main "HOL-Library.Product_Lexorder" "HOL-Library.Log_Nat"
begin

section \<open>Python values and errors\<close>

text \<open>
  The sources are Python 2 (\<^verbatim>\<open>print >>\<close>, \<^verbatim>\<open>itertools.izip\<close>, \<^verbatim>\<open>sys.maxint\<close>):
  integers are unbounded (\<^typ>\<open>int\<close>) and \<^verbatim>\<open>/\<close> on two integers is floor division.
  Every exception a modelled function can raise is a value of \<open>py_error\<close>; a function that
  can raise returns \<open>py_error + 'a\<close> with \<open>Inl\<close> for the exception.
\<close>

datatype py_error =
  IndexError | KeyError | TypeError | ZeroDivisionError | ValueError | OverflowError | SystemExit

subsection \<open>Floats\<close>

text \<open>
  A Python float is an IEEE 754 double: 53 significant bits, results rounded to the nearest
  double, a tie to the one with the even significand. \<open>round_half_even num den\<close> is the
  quotient \<open>num / den\<close> (\<open>den > 0\<close>) rounded to an integer in that way.
\<close>

definition round_half_even :: "int \<Rightarrow> int \<Rightarrow> int" where
  "round_half_even num den =
     (let q = num div den; r = num mod den
      in if 2 * r < den then q else if den < 2 * r then q + 1 else if even q then q else q + 1)"

text \<open>
  The conversion of an integer to a float, as \<^verbatim>\<open>float(n)\<close> and as the coercion of the integer
  operand of \<^verbatim>\<open>n / x\<close> for a float \<open>x\<close>: an integer of more than 53 bits is rounded to 53
  bits, and one that rounds to \<open>2^1024\<close> or more raises. The result is an integer again.
\<close>

definition float_of_int :: "int \<Rightarrow> py_error + int" where
  "float_of_int n =
     (let sh = nat (bitlen \<bar>n\<bar> - 53);
          r = round_half_even \<bar>n\<bar> (2 ^ sh) * 2 ^ sh
      in if 2 ^ 1024 \<le> r then Inl OverflowError else Inr (sgn n * r))"

text \<open>
  \<open>quotient_exponent n m\<close> is the exponent \<open>e\<close> with \<open>2^e \<le> n / m < 2^(e+1)\<close>
  for positive \<open>n\<close> and \<open>m\<close>.
\<close>

definition quotient_exponent :: "int \<Rightarrow> int \<Rightarrow> int" where
  "quotient_exponent n m =
     (let d = bitlen n - bitlen m
      in if m * 2 ^ nat d \<le> n * 2 ^ nat (- d) then d else d - 1)"

text \<open>
  The quotient \<^verbatim>\<open>a / b\<close> of two floats with integer values, \<open>b\<close> not zero: the exact
  quotient rounded to a multiple of \<open>2^k\<close>, where \<open>k\<close> is 52 below its exponent, and
  \<open>-1074\<close> for a subnormal result. The quotient of two integers that are floats cannot
  overflow.
\<close>

definition float_div :: "int \<Rightarrow> int \<Rightarrow> real" where
  "float_div a b =
     (if a = 0 then 0
      else
        (let k = max (quotient_exponent \<bar>a\<bar> \<bar>b\<bar>) (- 1022) - 52;
             r = round_half_even (\<bar>a\<bar> * 2 ^ nat (- k)) (\<bar>b\<bar> * 2 ^ nat k)
         in real_of_int (sgn a * sgn b * r) * (if 0 \<le> k then 2 ^ nat k else 1 / 2 ^ nat (- k))))"

text \<open>
  The literal \<^verbatim>\<open>0.95\<close> is the double \<open>8556839292003942 / 2^53\<close>, a little below 95/100.
  \<open>accepted a b\<close> is \<^verbatim>\<open>a / b >= 0.95\<close> for two floats with integer values.
\<close>

definition accepted :: "int \<Rightarrow> int \<Rightarrow> bool" where
  "accepted a b = (8556839292003942 / 2 ^ 53 \<le> float_div a b)"

text \<open>
  \<^verbatim>\<open>mapped_size / float(len) >= 0.95\<close> for two integers: \<^verbatim>\<open>float(len)\<close> is evaluated first, the
  division then converts \<^verbatim>\<open>mapped_size\<close> and raises for a zero divisor.
\<close>

definition sufficient_fraction :: "int \<Rightarrow> int \<Rightarrow> py_error + bool" where
  "sufficient_fraction msize len =
     (case float_of_int len of
        Inl err \<Rightarrow> Inl err
      | Inr b \<Rightarrow>
          (case float_of_int msize of
             Inl err \<Rightarrow> Inl err
           | Inr a \<Rightarrow> if b = 0 then Inl ZeroDivisionError else Inr (accepted a b)))"

text \<open>
  The sqlite3 module binds a Python integer as a 64-bit SQLite INTEGER and raises for one
  outside that range.
\<close>

definition in_int64 :: "int \<Rightarrow> bool" where
  "in_int64 x = (- (2 ^ 63) \<le> x \<and> x < 2 ^ 63)"

section \<open>LiftOver in the knowledge database (loki\_db.py)\<close>

subsection \<open>Tables and the chain index\<close>

text \<open>A row of \<^verbatim>\<open>db.chain\<close> and a row of \<^verbatim>\<open>db.chain_data\<close>, with the columns of the schema.\<close>

record chain =
  chain_id :: int
  old_ucschg :: int
  old_chr :: int
  old_start :: int
  old_end :: int
  new_ucschg :: int
  new_chr :: int
  new_start :: int
  new_end :: int
  score :: int
  is_fwd :: int
  source_id :: int

record chain_data =
  cd_chain_id :: int
  cd_old_start :: int
  cd_old_end :: int
  cd_new_start :: int
  cd_source_id :: int

text \<open>
  The key of a chain in the index is the tuple
  \<^verbatim>\<open>(score, old_start, old_end, new_start, is_fwd, new_chr, chain_id)\<close>, a segment of the index
  is \<^verbatim>\<open>(old_start, old_end, new_start)\<close>; Python compares both lexicographically.
\<close>

type_synonym chain_key = "int \<times> int \<times> int \<times> int \<times> int \<times> int \<times> int"
type_synonym seg_data = "int \<times> int \<times> int"

definition k_score :: "chain_key \<Rightarrow> int" where
  "k_score c = (case c of (s, os, oe, ns, fwd, nc, cid) \<Rightarrow> s)"
definition k_old_start :: "chain_key \<Rightarrow> int" where
  "k_old_start c = (case c of (s, os, oe, ns, fwd, nc, cid) \<Rightarrow> os)"
definition k_old_end :: "chain_key \<Rightarrow> int" where
  "k_old_end c = (case c of (s, os, oe, ns, fwd, nc, cid) \<Rightarrow> oe)"
definition k_is_fwd :: "chain_key \<Rightarrow> int" where
  "k_is_fwd c = (case c of (s, os, oe, ns, fwd, nc, cid) \<Rightarrow> fwd)"
definition k_new_chr :: "chain_key \<Rightarrow> int" where
  "k_new_chr c = (case c of (s, os, oe, ns, fwd, nc, cid) \<Rightarrow> nc)"
definition k_chain_id :: "chain_key \<Rightarrow> int" where
  "k_chain_id c = (case c of (s, os, oe, ns, fwd, nc, cid) \<Rightarrow> cid)"

definition sd_old_start :: "seg_data \<Rightarrow> int" where
  "sd_old_start d = (case d of (os, oe, ns) \<Rightarrow> os)"
definition sd_old_end :: "seg_data \<Rightarrow> int" where
  "sd_old_end d = (case d of (os, oe, ns) \<Rightarrow> oe)"
definition sd_new_start :: "seg_data \<Rightarrow> int" where
  "sd_new_start d = (case d of (os, oe, ns) \<Rightarrow> ns)"

text \<open>
  The query of \<^verbatim>\<open>_generateApplicableLiftOverChains\<close>:
  \<^verbatim>\<open>SELECT chain_id, c.old_chr, c.score, c.old_start, c.old_end, c.new_start, c.is_fwd, c.new_chr,
         cd.old_start, cd.old_end, cd.new_start
  FROM chain AS c JOIN chain_data AS cd USING (chain_id)
  WHERE c.old_ucschg=? AND c.new_ucschg=?
  ORDER BY c.old_chr, score DESC, cd.old_start\<close>
  A result row is kept as the pair of the joined rows. SQL leaves the order of rows that tie on
  the ORDER BY key open; the model takes the stable sort of the nested-loop join.
\<close>

definition chain_join :: "chain list \<Rightarrow> chain_data list \<Rightarrow> (chain \<times> chain_data) list" where
  "chain_join cs cds =
     concat (map (\<lambda>c. map (\<lambda>cd. (c, cd)) (filter (\<lambda>cd. cd_chain_id cd = chain_id c) cds)) cs)"

definition index_query :: "chain list \<Rightarrow> chain_data list \<Rightarrow> int \<Rightarrow> int \<Rightarrow> (chain \<times> chain_data) list" where
  "index_query cs cds oldHG newHG =
     sort_key (\<lambda>(c, cd). (old_chr c, - score c, cd_old_start cd))
       (filter (\<lambda>(c, cd). old_ucschg c = oldHG \<and> new_ucschg c = newHG) (chain_join cs cds))"

text \<open>
  The index of one conversion: \<^verbatim>\<open>chains['keys'][chr]\<close> is the list of chain keys of a
  chromosome and \<^verbatim>\<open>chains['data'][chr][chain]\<close> the segments of a chain. Both dictionaries get
  their entry for a chromosome in the same statement, so the model keeps them in one map.
\<close>

type_synonym chr_index = "chain_key list \<times> (chain_key \<rightharpoonup> seg_data list)"
type_synonym chain_index = "int \<rightharpoonup> chr_index"

definition row_key :: "chain \<times> chain_data \<Rightarrow> chain_key" where
  "row_key r = (case r of (c, cd) \<Rightarrow>
     (score c, old_start c, old_end c, new_start c, is_fwd c, new_chr c, chain_id c))"

definition row_seg :: "chain \<times> chain_data \<Rightarrow> seg_data" where
  "row_seg r = (case r of (c, cd) \<Rightarrow> (cd_old_start cd, cd_old_end cd, cd_new_start cd))"

definition add_row :: "chain_index \<Rightarrow> chain \<times> chain_data \<Rightarrow> chain_index" where
  "add_row idx row =
     (let ch = row_key row; chr = old_chr (fst row) in
      case idx chr of
        None \<Rightarrow> idx(chr \<mapsto> ([ch], [ch \<mapsto> [row_seg row]]))
      | Some (ks, d) \<Rightarrow>
          (case d ch of
             None \<Rightarrow> idx(chr \<mapsto> (ks @ [ch], d(ch \<mapsto> [row_seg row])))
           | Some segs \<Rightarrow> idx(chr \<mapsto> (ks, d(ch \<mapsto> segs @ [row_seg row])))))"

text \<open>
  \<^verbatim>\<open>chains['keys'][k].sort(reverse=True)\<close>: the keys of a chromosome are distinct tuples, so the
  descending sort is the reverse of the ascending one.
\<close>

definition sort_keys :: "chain_index \<Rightarrow> chain_index" where
  "sort_keys idx = (\<lambda>chr. case idx chr of None \<Rightarrow> None | Some (ks, d) \<Rightarrow> Some (rev (sort ks), d))"

definition build_index :: "(chain \<times> chain_data) list \<Rightarrow> chain_index" where
  "build_index rows = sort_keys (foldl add_row Map.empty rows)"

subsection \<open>The segments that apply to a region\<close>

text \<open>A yielded segment: \<^verbatim>\<open>(chain_id, old_start, old_end, new_start, is_fwd, new_chr)\<close>.\<close>

record seg =
  seg_chain :: int
  seg_old_start :: int
  seg_old_end :: int
  seg_new_start :: int
  seg_is_fwd :: int
  seg_new_chr :: int

definition mk_seg :: "chain_key \<Rightarrow> seg_data \<Rightarrow> seg" where
  "mk_seg c d = \<lparr> seg_chain = k_chain_id c, seg_old_start = sd_old_start d,
     seg_old_end = sd_old_end d, seg_new_start = sd_new_start d,
     seg_is_fwd = k_is_fwd c, seg_new_chr = k_new_chr c \<rparr>"

definition maxsize :: int where
  "maxsize = 9223372036854775807"

text \<open>\<^verbatim>\<open>bisect.bisect(a, x)\<close> (bisect\_right) of the standard library, as it is written there.\<close>

function bisect_loop :: "seg_data list \<Rightarrow> seg_data \<Rightarrow> nat \<Rightarrow> nat \<Rightarrow> nat" where
  "bisect_loop a x lo hi =
     (if lo < hi then
        (let mid = (lo + hi) div 2 in
         if x < a ! mid then bisect_loop a x lo mid else bisect_loop a x (mid + 1) hi)
      else lo)"
  by pat_completeness auto
termination
  by (relation "measure (\<lambda>(a, x, lo, hi). hi - lo)") auto

declare bisect_loop.simps [simp del]

definition bisect :: "seg_data list \<Rightarrow> seg_data \<Rightarrow> nat" where
  "bisect a x = bisect_loop a x 0 (length a)"

text \<open>
  \<^verbatim>\<open>while (idx < 0) or (data[idx][1] < start): idx = idx + 1\<close>
  reads \<^verbatim>\<open>data[idx]\<close> past the end, and raises, when no segment from \<open>idx\<close> on ends at or after
  \<open>start\<close>.
\<close>

function skip_before :: "seg_data list \<Rightarrow> int \<Rightarrow> int \<Rightarrow> py_error + nat" where
  "skip_before data start idx =
     (if idx < 0 then skip_before data start (idx + 1)
      else if int (length data) \<le> idx then Inl IndexError
      else if sd_old_end (data ! nat idx) < start then skip_before data start (idx + 1)
      else Inr (nat idx))"
  by pat_completeness auto
termination
  by (relation "measure (\<lambda>(data, start, idx). nat (int (length data) - idx))") auto

declare skip_before.simps [simp del]

text \<open>
  \<^verbatim>\<open>while (idx < len(data)) and (data[idx][0] <= end): yield ...; idx = idx + 1\<close>
\<close>

definition yield_from :: "chain_key \<Rightarrow> seg_data list \<Rightarrow> int \<Rightarrow> nat \<Rightarrow> seg list" where
  "yield_from c data end idx = map (mk_seg c) (takeWhile (\<lambda>d. sd_old_start d \<le> end) (drop idx data))"

text \<open>
  The generator is lazy: what it yields is a list of segments, followed by the exception it
  raises when resumed after the last of them, if any.
\<close>

type_synonym seg_stream = "seg list \<times> py_error option"

text \<open>
  The body of \<^verbatim>\<open>for c in chains['keys'].get(chrom, [])\<close> for one chain: the segments it
  yields, or the exception it raises (always before its first \<^verbatim>\<open>yield\<close>).
\<close>

definition chain_group ::
  "(chain_key \<rightharpoonup> seg_data list) \<Rightarrow> int \<Rightarrow> int \<Rightarrow> chain_key \<Rightarrow> py_error + seg list" where
  "chain_group d start end c =
     (if start \<le> k_old_end c \<and> end \<ge> k_old_start c then
        (case d c of
           None \<Rightarrow> Inl KeyError
         | Some data \<Rightarrow>
             (case skip_before data start (int (bisect data (start, maxsize, maxsize)) - 1) of
                Inl e \<Rightarrow> Inl e
              | Inr idx \<Rightarrow> Inr (yield_from c data end idx)))
      else Inr [])"

fun chains_loop :: "(chain_key \<rightharpoonup> seg_data list) \<Rightarrow> int \<Rightarrow> int \<Rightarrow> chain_key list \<Rightarrow> seg_stream" where
  "chains_loop d start end [] = ([], None)"
| "chains_loop d start end (c # cs) =
     (case chain_group d start end c of
        Inl e \<Rightarrow> ([], Some e)
      | Inr g \<Rightarrow> (case chains_loop d start end cs of (rest, e) \<Rightarrow> (g @ rest, e)))"

definition generateApplicableLiftOverChains :: "chain_index \<Rightarrow> int \<Rightarrow> int \<Rightarrow> int \<Rightarrow> seg_stream" where
  "generateApplicableLiftOverChains idx chrom start end =
     (case idx chrom of
        None \<Rightarrow> ([], None)
      | Some (ks, d) \<Rightarrow> chains_loop d start end ks)"

subsection \<open>Mapping a region through one chain\<close>

text \<open>The local variables of \<^verbatim>\<open>_liftOverRegionUsingChains\<close>, in the order the source computes them.\<close>

definition front_diff :: "int \<Rightarrow> seg \<Rightarrow> int" where
  "front_diff start first_seg =
     max 0 (min (start - seg_old_start first_seg) (seg_old_end first_seg - seg_old_start first_seg))"

definition end_diff :: "int \<Rightarrow> seg \<Rightarrow> int" where
  "end_diff end end_seg =
     max 0 (min (end - seg_old_start end_seg) (seg_old_end end_seg - seg_old_start end_seg))"

definition new_coords :: "int \<Rightarrow> int \<Rightarrow> seg \<Rightarrow> seg \<Rightarrow> int \<times> int" where
  "new_coords start end first_seg end_seg =
     (if seg_is_fwd first_seg \<noteq> 0 then
        (seg_new_start first_seg + front_diff start first_seg,
         seg_new_start end_seg + end_diff end end_seg)
      else
        (seg_new_start end_seg - end_diff end end_seg,
         seg_new_start first_seg - front_diff start first_seg))"

definition mapped_size :: "int \<Rightarrow> int \<Rightarrow> seg \<Rightarrow> seg \<Rightarrow> int \<Rightarrow> int" where
  "mapped_size start end first_seg end_seg total_mapped_sz =
     total_mapped_sz - front_diff start first_seg
       - (seg_old_end end_seg - seg_old_start end_seg + 1) + end_diff end end_seg + 1"

type_synonym ('l, 'e) region = "'l \<times> int \<times> int \<times> int \<times> 'e"

definition liftOverRegionUsingChains ::
  "'l \<Rightarrow> int \<Rightarrow> int \<Rightarrow> 'e \<Rightarrow> seg \<Rightarrow> seg \<Rightarrow> int \<Rightarrow> py_error + ('l, 'e) region option" where
  "liftOverRegionUsingChains label start end extra first_seg end_seg total_mapped_sz =
     (case sufficient_fraction (mapped_size start end first_seg end_seg total_mapped_sz)
             (end - start + 1) of
        Inl err \<Rightarrow> Inl err
      | Inr enough \<Rightarrow>
          if enough
          then Inr (Some (label, seg_new_chr first_seg,
                      fst (new_coords start end first_seg end_seg),
                      snd (new_coords start end first_seg end_seg), extra))
          else Inr None)"

subsection \<open>Lifting regions\<close>

text \<open>The local variables of the loop over the segments in \<^verbatim>\<open>generateLiftOverRegions\<close>.\<close>

record ('l, 'e) lift_state =
  st_mapped_reg :: "('l, 'e) region option"
  st_curr_chain :: "int option"
  st_total_mapped_sz :: int
  st_first_seg :: "seg option"
  st_end_seg :: "seg option"

definition init_state :: "('l, 'e) lift_state" where
  "init_state = \<lparr> st_mapped_reg = None, st_curr_chain = None, st_total_mapped_sz = 0,
     st_first_seg = None, st_end_seg = None \<rparr>"

definition start_chain :: "('l, 'e) lift_state \<Rightarrow> seg \<Rightarrow> ('l, 'e) lift_state" where
  "start_chain st s = st\<lparr> st_curr_chain := Some (seg_chain s), st_first_seg := Some s,
     st_end_seg := Some s, st_total_mapped_sz := seg_old_end s - seg_old_start s + 1 \<rparr>"

definition extend_chain :: "('l, 'e) lift_state \<Rightarrow> seg \<Rightarrow> ('l, 'e) lift_state" where
  "extend_chain st s = st\<lparr> st_end_seg := Some s,
     st_total_mapped_sz := st_total_mapped_sz st + seg_old_end s - seg_old_start s + 1 \<rparr>"

text \<open>
  Mapping with the segments of the state; \<^verbatim>\<open>first_seg[1]\<close> on \<^verbatim>\<open>None\<close> would raise.
\<close>

definition map_state ::
  "'l \<Rightarrow> int \<Rightarrow> int \<Rightarrow> 'e \<Rightarrow> ('l, 'e) lift_state \<Rightarrow> py_error + ('l, 'e) region option" where
  "map_state label start end extra st =
     (case st_first_seg st of
        None \<Rightarrow> Inl TypeError
      | Some f \<Rightarrow>
          (case st_end_seg st of
             None \<Rightarrow> Inl TypeError
           | Some e \<Rightarrow> liftOverRegionUsingChains label start end extra f e (st_total_mapped_sz st)))"

text \<open>
  The loop \<^verbatim>\<open>for seg in self._generateApplicableLiftOverChains(...)\<close>; the result says whether
  the loop left by \<^verbatim>\<open>break\<close>, after which the generator is not resumed.
\<close>

fun segs_loop ::
  "'l \<Rightarrow> int \<Rightarrow> int \<Rightarrow> 'e \<Rightarrow> ('l, 'e) lift_state \<Rightarrow> seg list \<Rightarrow> py_error + bool \<times> ('l, 'e) lift_state" where
  "segs_loop label start end extra st [] = Inr (False, st)"
| "segs_loop label start end extra st (s # rest) =
     (case st_curr_chain st of
        None \<Rightarrow> segs_loop label start end extra (start_chain st s) rest
      | Some cc \<Rightarrow>
          if seg_chain s \<noteq> cc then
            (case map_state label start end extra st of
               Inl err \<Rightarrow> Inl err
             | Inr m \<Rightarrow>
                 if m \<noteq> None then Inr (True, st\<lparr> st_mapped_reg := m \<rparr>)
                 else segs_loop label start end extra (start_chain (st\<lparr> st_mapped_reg := m \<rparr>) s) rest)
          else segs_loop label start end extra (extend_chain st s) rest)"

text \<open>
  The part \<^verbatim>\<open># find and apply chains\<close> of the loop body: the loop over the segments and the
  mapping of the last chain after it. An exception the generator raises after its last
  segment reaches the caller unless the loop has left by \<^verbatim>\<open>break\<close>.
\<close>

definition after_loop ::
  "'l \<Rightarrow> int \<Rightarrow> int \<Rightarrow> 'e \<Rightarrow> ('l, 'e) lift_state \<Rightarrow> py_error + ('l, 'e) region option" where
  "after_loop label start end extra st =
     (if st_mapped_reg st = None \<and> st_first_seg st \<noteq> None
      then map_state label start end extra st
      else Inr (st_mapped_reg st))"

definition loop_outcome ::
  "'l \<Rightarrow> int \<Rightarrow> int \<Rightarrow> 'e \<Rightarrow> py_error + bool \<times> ('l, 'e) lift_state \<Rightarrow> py_error option
     \<Rightarrow> py_error + ('l, 'e) region option" where
  "loop_outcome label start end extra r gen_err =
     (case r of
        Inl err \<Rightarrow> Inl err
      | Inr (broke, st) \<Rightarrow>
          (case (if broke then None else gen_err) of
             Some err \<Rightarrow> Inl err
           | None \<Rightarrow> after_loop label start end extra st))"

definition apply_chains ::
  "'l \<Rightarrow> int \<Rightarrow> int \<Rightarrow> 'e \<Rightarrow> seg_stream \<Rightarrow> py_error + ('l, 'e) region option" where
  "apply_chains label start end extra stream =
     (case stream of (segs, gen_err) \<Rightarrow>
        loop_outcome label start end extra (segs_loop label start end extra init_state segs) gen_err)"

text \<open>The body of the loop over the regions, up to the decision between yielding and dropping.\<close>

definition liftOverRegion :: "chain_index \<Rightarrow> ('l, 'e) region \<Rightarrow> py_error + ('l, 'e) region option" where
  "liftOverRegion idx region =
     (case region of (label, chrom, start0, end0, extra) \<Rightarrow>
        (let start = (if start0 > end0 then end0 else start0);
             end = (if start0 > end0 then start0 else end0);
             is_region = (start \<noteq> end)
         in case apply_chains label start end extra
                   (generateApplicableLiftOverChains idx chrom start end) of
              Inl err \<Rightarrow> Inl err
            | Inr None \<Rightarrow> Inr None
            | Inr (Some (l, c, ns, ne, x)) \<Rightarrow>
                if is_region then Inr (Some (l, c, ns, ne, x))
                else Inr (Some (l, c, ns, ns, extra))))"

text \<open>
  What \<^verbatim>\<open>generateLiftOverRegions\<close> produces: the regions it yields, the regions it hands to
  \<^verbatim>\<open>errorCallback\<close>, and the two counters it stores in \<^verbatim>\<open>tally\<close>.
\<close>

record ('l, 'e) lift_out =
  yielded :: "('l, 'e) region list"
  dropped :: "('l, 'e) region list"
  numNull :: nat
  numLift :: nat

fun regions_loop ::
  "chain_index \<Rightarrow> ('l, 'e) lift_out \<Rightarrow> ('l, 'e) region list \<Rightarrow> py_error + ('l, 'e) lift_out" where
  "regions_loop idx out [] = Inr out"
| "regions_loop idx out (region # rest) =
     (case liftOverRegion idx region of
        Inl err \<Rightarrow> Inl err
      | Inr (Some m) \<Rightarrow>
          regions_loop idx (out\<lparr> numLift := numLift out + 1, yielded := yielded out @ [m] \<rparr>) rest
      | Inr None \<Rightarrow>
          regions_loop idx (out\<lparr> numNull := numNull out + 1, dropped := dropped out @ [region] \<rparr>) rest)"

text \<open>
  The index of a conversion is built when the first region asks for its chains, and cached
  per instance; the tables are read-only while regions are lifted, so the model computes it
  from the tables. The query binds \<^verbatim>\<open>(oldHG, newHG)\<close>.
\<close>

definition liftOverCache :: "chain list \<Rightarrow> chain_data list \<Rightarrow> int \<Rightarrow> int \<Rightarrow> py_error + chain_index" where
  "liftOverCache cs cds oldHG newHG =
     (if in_int64 oldHG \<and> in_int64 newHG then Inr (build_index (index_query cs cds oldHG newHG))
      else Inl OverflowError)"

definition generateLiftOverRegions ::
  "chain list \<Rightarrow> chain_data list \<Rightarrow> int \<Rightarrow> int \<Rightarrow> ('l, 'e) region list \<Rightarrow> py_error + ('l, 'e) lift_out" where
  "generateLiftOverRegions cs cds oldHG newHG regions =
     (if regions = [] then Inr \<lparr> yielded = [], dropped = [], numNull = 0, numLift = 0 \<rparr>
      else
        (case liftOverCache cs cds oldHG newHG of
           Inl err \<Rightarrow> Inl err
         | Inr idx \<Rightarrow>
             regions_loop idx \<lparr> yielded = [], dropped = [], numNull = 0, numLift = 0 \<rparr> regions))"

text \<open>
  What the claims say about the mapping, in their words: a segment's length is
  \<open>old_end - old_start + 1\<close>, \<open>clamp x lo hi\<close> is \<open>x\<close> brought into \<open>[lo, hi]\<close>, and the
  chains of a region are tried one after the other until a mapping is accepted.
\<close>

definition seg_len :: "seg \<Rightarrow> int" where
  "seg_len s = seg_old_end s - seg_old_start s + 1"

definition clamp :: "int \<Rightarrow> int \<Rightarrow> int \<Rightarrow> int" where
  "clamp x lo hi = max lo (min x hi)"

definition spec_front_diff :: "int \<Rightarrow> seg \<Rightarrow> int" where
  "spec_front_diff start first_seg = clamp (start - seg_old_start first_seg) 0 (seg_len first_seg)"

definition spec_end_diff :: "int \<Rightarrow> seg \<Rightarrow> int" where
  "spec_end_diff end end_seg = clamp (end - seg_old_start end_seg) 0 (seg_len end_seg)"

text \<open>A group of segments that all come from one chain.\<close>

definition one_chain :: "seg list \<Rightarrow> bool" where
  "one_chain g = (g \<noteq> [] \<and> (\<forall>s \<in> set g. seg_chain s = seg_chain (hd g)))"

fun try_chains :: "'l \<Rightarrow> int \<Rightarrow> int \<Rightarrow> 'e \<Rightarrow> seg list list \<Rightarrow> py_error + ('l, 'e) region option" where
  "try_chains label start end extra [] = Inr None"
| "try_chains label start end extra (g # gs) =
     (case liftOverRegionUsingChains label start end extra (hd g) (last g) (sum_list (map seg_len g)) of
        Inl err \<Rightarrow> Inl err
      | Inr (Some m) \<Rightarrow> Inr (Some m)
      | Inr None \<Rightarrow> try_chains label start end extra gs)"

text \<open>
  The chains of a chromosome one by one: the segments each of them yields, up to the first
  chain that raises, and that exception.
\<close>

fun chain_groups ::
  "(chain_key \<rightharpoonup> seg_data list) \<Rightarrow> int \<Rightarrow> int \<Rightarrow> chain_key list \<Rightarrow> seg list list \<times> py_error option" where
  "chain_groups d start end [] = ([], None)"
| "chain_groups d start end (c # cs) =
     (case chain_group d start end c of
        Inl err \<Rightarrow> ([], Some err)
      | Inr g \<Rightarrow> (case chain_groups d start end cs of (gs, err) \<Rightarrow> (g # gs, err)))"

text \<open>
  Trying the chains when reading on after the last of them raises: the last chain read is
  not tried, and the exception is the outcome unless an earlier chain was accepted.
\<close>

definition try_stream ::
  "'l \<Rightarrow> int \<Rightarrow> int \<Rightarrow> 'e \<Rightarrow> seg list list \<Rightarrow> py_error option \<Rightarrow> py_error + ('l, 'e) region option" where
  "try_stream label start end extra gs gen_err =
     (case gen_err of
        None \<Rightarrow> try_chains label start end extra gs
      | Some err \<Rightarrow>
          (case try_chains label start end extra (butlast gs) of
             Inr None \<Rightarrow> Inl err
           | r \<Rightarrow> r))"

section \<open>The standalone liftOver (loki/util/liftOver.py)\<close>












text \<open>The tables of the scenarios: one forward chain on chromosome 1, from build 18 to 19.\<close>

definition c8_chain :: chain where
  "c8_chain = \<lparr> chain_id = 1, old_ucschg = 18, old_chr = 1, old_start = 1000, old_end = 2000,
     new_ucschg = 19, new_chr = 1, new_start = 5000, new_end = 6000, score = 100, is_fwd = 1,
     source_id = 1 \<rparr>"

definition c8_data :: "chain_data list" where
  "c8_data =
     [\<lparr> cd_chain_id = 1, cd_old_start = 1000, cd_old_end = 1500, cd_new_start = 5000, cd_source_id = 1 \<rparr>,
      \<lparr> cd_chain_id = 1, cd_old_start = 1600, cd_old_end = 2000, cd_new_start = 5600, cd_source_id = 1 \<rparr>]"

definition c8_seg1 :: seg where
  "c8_seg1 = \<lparr> seg_chain = 1, seg_old_start = 1000, seg_old_end = 1500, seg_new_start = 5000,
     seg_is_fwd = 1, seg_new_chr = 1 \<rparr>"

definition c8_seg2 :: seg where
  "c8_seg2 = \<lparr> seg_chain = 1, seg_old_start = 1600, seg_old_end = 2000, seg_new_start = 5600,
     seg_is_fwd = 1, seg_new_chr = 1 \<rparr>"



definition short_seg :: seg where
  "short_seg = \<lparr> seg_chain = 7, seg_old_start = 1000, seg_old_end = 1018, seg_new_start = 5000,
     seg_is_fwd = 1, seg_new_chr = 1 \<rparr>"

text \<open>
  Three chains on chromosome 1, in descending order of score. The third covers 1000..2000 and
  has a single segment, which ends at 1100.
\<close>

definition two_chains :: "chain list" where
  "two_chains =
     [\<lparr> chain_id = 1, old_ucschg = 18, old_chr = 1, old_start = 1000, old_end = 2000,
        new_ucschg = 19, new_chr = 1, new_start = 5000, new_end = 6000, score = 300, is_fwd = 1,
        source_id = 1 \<rparr>,
      \<lparr> chain_id = 2, old_ucschg = 18, old_chr = 1, old_start = 1000, old_end = 2000,
        new_ucschg = 19, new_chr = 2, new_start = 8000, new_end = 9000, score = 200, is_fwd = 1,
        source_id = 1 \<rparr>]"

definition three_chains :: "chain list" where
  "three_chains = two_chains @
     [\<lparr> chain_id = 3, old_ucschg = 18, old_chr = 1, old_start = 1000, old_end = 2000,
        new_ucschg = 19, new_chr = 3, new_start = 9000, new_end = 9100, score = 100, is_fwd = 1,
        source_id = 1 \<rparr>]"

definition three_data :: "chain_data list" where
  "three_data =
     [\<lparr> cd_chain_id = 1, cd_old_start = 1000, cd_old_end = 1500, cd_new_start = 5000, cd_source_id = 1 \<rparr>,
      \<lparr> cd_chain_id = 1, cd_old_start = 1600, cd_old_end = 2000, cd_new_start = 5600, cd_source_id = 1 \<rparr>,
      \<lparr> cd_chain_id = 2, cd_old_start = 1000, cd_old_end = 2000, cd_new_start = 8000, cd_source_id = 1 \<rparr>,
      \<lparr> cd_chain_id = 3, cd_old_start = 1000, cd_old_end = 1100, cd_new_start = 9000, cd_source_id = 1 \<rparr>]"



section \<open>Current RS numbers (loki\_db.py)\<close>







section \<open>Properties of the float comparison\<close>

subsection \<open>Rounding to the nearest integer\<close>

lemma rhe_ge: "0 < den \<Longrightarrow> N * den \<le> num \<Longrightarrow> N \<le> round_half_even num den"
proof -
  assume d: "0 < den" and le: "N * den \<le> num"
  have "(N * den) div den \<le> num div den"
    using le d by (rule zdiv_mono1)
  then have "N \<le> num div den" using d by simp
  then show ?thesis by (simp add: round_half_even_def Let_def)
qed

lemma div_lt_of_lt: 
  assumes d: "0 < (den::int)" and lt: "num < N * den" shows "num div den < N"
proof (rule ccontr)
  assume "\<not> num div den < N"
  then have "N \<le> num div den" by simp
  then have "N * den \<le> (num div den) * den" using d by (simp add: mult_right_mono)
  also have "\<dots> \<le> num" using d by (metis mult.commute pos_mod_sign cancel_div_mod_rules(1) add.commute le_add_same_cancel1 mult_div_mod_eq)
  finally show False using lt by simp
qed

lemma rhe_le: "0 < den \<Longrightarrow> num \<le> N * den \<Longrightarrow> round_half_even num den \<le> N"
proof -
  assume d: "0 < den" and le: "num \<le> N * den"
  show ?thesis
  proof (cases "num = N * den")
    case True
    then show ?thesis using d by (simp add: round_half_even_def Let_def)
  next
    case False
    then have "num < N * den" using le by simp
    then have "num div den < N" using d by (simp add: div_lt_of_lt)
    then show ?thesis by (simp add: round_half_even_def Let_def)
  qed
qed

lemma rhe_ge_even:
  assumes d: "0 < den" and ev: "even C"
  shows "(C \<le> round_half_even num den) = ((2 * C - 1) * den \<le> 2 * num)"
proof -
  define q where "q = num div den"
  define r where "r = num mod den"
  have num: "num = q * den + r" by (simp add: q_def r_def)
  have r0: "0 \<le> r" and r1: "r < den" using d by (simp_all add: r_def)
  have res: "round_half_even num den =
      (if 2 * r < den then q else if den < 2 * r then q + 1 else if even q then q else q + 1)"
    by (simp add: round_half_even_def Let_def q_def r_def)
  consider (lo) "q \<le> C - 2" | (mid) "q = C - 1" | (hi) "C \<le> q" by linarith
  then show ?thesis
  proof cases
    case lo
    then have "(q + 1) * den \<le> (C - 1) * den" using d by (simp add: mult_right_mono)
    then have "2 * num < (2 * C - 1) * den" using num r1 d by (simp add: algebra_simps)
    moreover have "round_half_even num den < C" using lo by (simp add: res)
    ultimately show ?thesis by simp
  next
    case mid
    then have odd: "odd q" using ev by simp
    have n2: "2 * num = 2 * (C * den) - 2 * den + 2 * r"
      using num mid by (simp add: algebra_simps)
    have c2: "(2 * C - 1) * den = 2 * (C * den) - den"
      by (simp add: algebra_simps)
    have "((2 * C - 1) * den \<le> 2 * num) = (den \<le> 2 * r)"
      unfolding n2 c2 by linarith
    moreover have "(C \<le> round_half_even num den) = (den \<le> 2 * r)"
      using mid odd by (auto simp: res)
    ultimately show ?thesis by simp
  next
    case hi
    then have "C * den \<le> q * den" using d by (simp add: mult_right_mono)
    moreover have "2 * num = 2 * (q * den) + 2 * r" using num by simp
    moreover have "(2 * C - 1) * den = 2 * (C * den) - den" by (simp add: algebra_simps)
    ultimately have "(2 * C - 1) * den \<le> 2 * num" using r0 d by linarith
    moreover have "C \<le> round_half_even num den" using hi by (simp add: res)
    ultimately show ?thesis by simp
  qed
qed

lemma scaled_quotient:
  assumes b: "0 < b"
  shows "0 < b * 2 ^ nat k"
    and "real_of_int (a * 2 ^ nat (- k)) / real_of_int (b * 2 ^ nat k)
           = (real_of_int a / real_of_int b) * 2 powi (- k)"
proof -
  show "0 < b * 2 ^ nat k" using b by simp
  show "real_of_int (a * 2 ^ nat (- k)) / real_of_int (b * 2 ^ nat k)
           = (real_of_int a / real_of_int b) * 2 powi (- k)"
  proof (cases "0 \<le> k")
    case True
    then show ?thesis by (simp add: power_int_def field_simps)
  next
    case False
    then show ?thesis by (simp add: power_int_def field_simps)
  qed
qed

lemma rhe_ge_real:
  assumes d: "0 < den" and le: "real_of_int N \<le> real_of_int num / real_of_int den"
  shows "N \<le> round_half_even num den"
proof -
  from le d have "real_of_int N * real_of_int den \<le> real_of_int num"
    by (simp add: pos_le_divide_eq)
  then have "N * den \<le> num" by (metis of_int_mult of_int_le_iff)
  with d show ?thesis by (rule rhe_ge)
qed

lemma rhe_le_real:
  assumes d: "0 < den" and le: "real_of_int num / real_of_int den \<le> real_of_int N"
  shows "round_half_even num den \<le> N"
proof -
  from le d have "real_of_int num \<le> real_of_int N * real_of_int den"
    by (simp add: pos_divide_le_eq)
  then have "num \<le> N * den" by (metis of_int_mult of_int_le_iff)
  with d show ?thesis by (rule rhe_le)
qed

lemma powi_bitlen:
  assumes "0 < n"
  shows "2 powi (bitlen n - 1) \<le> real_of_int n" and "real_of_int n < 2 powi (bitlen n)"
proof -
  from assms have b1: "1 \<le> bitlen n" by (auto simp: bitlen_alt_def)
  from bitlen_bounds[OF assms] have lo: "2 ^ nat (bitlen n - 1) \<le> n" and hi: "n < 2 ^ nat (bitlen n)"
    by simp_all
  have "real_of_int (2 ^ nat (bitlen n - 1)) \<le> real_of_int n" using lo by (simp only: of_int_le_iff)
  then show "2 powi (bitlen n - 1) \<le> real_of_int n" using b1 by (simp add: power_int_def)
  have "real_of_int n < real_of_int (2 ^ nat (bitlen n))" using hi by (simp only: of_int_less_iff)
  then show "real_of_int n < 2 powi (bitlen n)" using b1 by (simp add: power_int_def)
qed

lemma exponent_test:
  assumes "0 < m"
  shows "(m * 2 ^ nat d \<le> n * 2 ^ nat (- d)) = (2 powi d \<le> real_of_int n / real_of_int m)"
proof -
  have "(m * 2 ^ nat d \<le> n * 2 ^ nat (- d))
      = (real_of_int (m * 2 ^ nat d) \<le> real_of_int (n * 2 ^ nat (- d)))"
    by (simp only: of_int_le_iff)
  also have "\<dots> = (2 powi d \<le> real_of_int n / real_of_int m)"
  proof (cases "0 \<le> d")
    case True
    then show ?thesis using assms by (simp add: power_int_def field_simps)
  next
    case False
    then show ?thesis using assms by (simp add: power_int_def field_simps)
  qed
  finally show ?thesis .
qed

lemma quotient_exponent_bounds:
  assumes n: "0 < n" and m: "0 < m"
  shows "2 powi (quotient_exponent n m) \<le> real_of_int n / real_of_int m"
    and "real_of_int n / real_of_int m < 2 powi (quotient_exponent n m + 1)"
proof -
  define d where "d = bitlen n - bitlen m"
  let ?x = "real_of_int n / real_of_int m"
  have mr: "0 < real_of_int m" and nr: "0 < real_of_int n" using n m by simp_all
  have up: "?x < 2 powi (d + 1)"
  proof -
    have "real_of_int n * 2 powi (bitlen m - 1) < 2 powi (bitlen n) * real_of_int m"
      using powi_bitlen[OF n] powi_bitlen[OF m] nr mr
      by (intro mult_less_le_imp_less) simp_all
    also have "2 powi (bitlen n) = 2 powi (d + 1) * (2::real) powi (bitlen m - 1)"
      by (simp add: d_def power_int_add[symmetric])
    finally have "real_of_int n < 2 powi (d + 1) * real_of_int m"
      by simp
    then show ?thesis using mr by (simp add: pos_divide_less_eq)
  qed
  have lo: "2 powi (d - 1) < ?x"
  proof -
    have "2 powi (bitlen n - 1) * real_of_int m < real_of_int n * 2 powi (bitlen m)"
      using powi_bitlen[OF n] powi_bitlen[OF m] nr mr
      by (intro mult_le_less_imp_less) simp_all
    also have "2 powi (bitlen n - 1) = 2 powi (d - 1) * (2::real) powi (bitlen m)"
      by (simp add: d_def power_int_add[symmetric])
    finally have "2 powi (d - 1) * real_of_int m < real_of_int n"
      by simp
    then show ?thesis using mr by (simp add: pos_less_divide_eq)
  qed
  have qe: "quotient_exponent n m = (if 2 powi d \<le> ?x then d else d - 1)"
    by (simp add: quotient_exponent_def Let_def d_def[symmetric] exponent_test[OF m])
  show "2 powi (quotient_exponent n m) \<le> ?x"
    using lo by (simp add: qe)
  show "?x < 2 powi (quotient_exponent n m + 1)"
    using up by (auto simp: qe)
qed

subsection \<open>The quotient against the literal 0.95\<close>

lemma powi_two_if: "(if 0 \<le> k then 2 ^ nat k else 1 / 2 ^ nat (- k)) = (2::real) powi k"
  by (simp add: power_int_def inverse_eq_divide power_one_over)

lemma accepted_pos:
  assumes a: "0 < a" and b: "0 < b"
  shows "accepted a b = (17113678584007883 * b \<le> 2 ^ 54 * a)"
proof -
  define e where "e = quotient_exponent a b"
  define k where "k = max e (- 1022) - 52"
  define r where "r = round_half_even (a * 2 ^ nat (- k)) (b * 2 ^ nat k)"
  let ?x = "real_of_int a / real_of_int b"
  have ar: "0 < real_of_int a" and br: "0 < real_of_int b" using a b by simp_all
  have fd: "float_div a b = real_of_int r * 2 powi k"
    using a b unfolding float_div_def Let_def powi_two_if
    by (simp add: e_def k_def r_def)
  have acc: "accepted a b = (8556839292003942 / 2 ^ 53 \<le> real_of_int r * 2 powi k)"
    by (simp only: accepted_def fd)
  have lo: "2 powi e \<le> ?x" and hi: "?x < 2 powi (e + 1)"
    using quotient_exponent_bounds[OF a b] by (simp_all add: e_def)
  have den: "0 < b * 2 ^ nat k"
    and sq: "real_of_int (a * 2 ^ nat (- k)) / real_of_int (b * 2 ^ nat k) = ?x * 2 powi (- k)"
    using scaled_quotient(1)[OF b, where k = k] scaled_quotient(2)[OF b, where k = k and a = a]
    by simp_all
  define c :: real where "c = 17113678584007883 / 2 ^ 54"
  have c1: "c \<le> 1" and c2: "1 / 2 < c" by (simp_all add: c_def)
  have rhs: "(17113678584007883 * b \<le> 2 ^ 54 * a) = (c \<le> ?x)"
  proof -
    have "(17113678584007883 * b \<le> 2 ^ 54 * a)
        = (real_of_int (17113678584007883 * b) \<le> real_of_int (2 ^ 54 * a))"
      by (simp only: of_int_le_iff)
    also have "\<dots> = (c \<le> ?x)"
      using br by (simp add: c_def field_simps)
    finally show ?thesis .
  qed
  consider (big) "0 \<le> e" | (unit) "e = - 1" | (small) "e \<le> - 2" by linarith
  then show ?thesis
  proof cases
    case big
    then have k: "k = e - 52" by (simp add: k_def)
    have "2 powi e * 2 powi (- k) \<le> ?x * 2 powi (- k)"
      using lo by (rule mult_right_mono) simp
    moreover have "(2::real) powi e * 2 powi (- k) = 2 ^ 52"
      by (simp add: k power_int_add[symmetric])
    ultimately have "real_of_int (2 ^ 52) \<le> ?x * 2 powi (- k)" by simp
    then have "2 ^ 52 \<le> r"
      unfolding r_def sq[symmetric] using den by (rule rhe_ge_real[rotated])
    then have "real_of_int (2 ^ 52) \<le> real_of_int r" by (simp only: of_int_le_iff)
    then have "real_of_int (2 ^ 52) * 2 powi k \<le> real_of_int r * 2 powi k"
      by (rule mult_right_mono) simp
    then have "2 ^ 52 * 2 powi k \<le> real_of_int r * 2 powi k" by simp
    moreover have "(2::real) ^ 52 * 2 powi k = 2 powi e"
    proof -
      have "(2::real) ^ 52 * 2 powi k = 2 powi 52 * 2 powi k" by simp
      also have "\<dots> = 2 powi (52 + k)" by (rule power_int_add[symmetric]) simp
      finally show ?thesis by (simp add: k)
    qed
    moreover have "1 \<le> (2::real) powi e" using big by simp
    ultimately have "1 \<le> real_of_int r * 2 powi k" by linarith
    then have "accepted a b" by (simp add: acc)
    moreover have "1 \<le> ?x" using lo \<open>1 \<le> (2::real) powi e\<close> by linarith
    then have "c \<le> ?x" using c1 by linarith
    ultimately show ?thesis unfolding rhs by simp
  next
    case unit
    then have k: "k = - 53" by (simp add: k_def)
    have r: "r = round_half_even (a * 2 ^ 53) b" by (simp add: r_def k)
    have "accepted a b = (8556839292003942 \<le> r)"
      by (simp add: acc k field_simps)
    also have "\<dots> = ((2 * 8556839292003942 - 1) * b \<le> 2 * (a * 2 ^ 53))"
      unfolding r by (rule rhe_ge_even[OF b]) simp
    also have "\<dots> = (17113678584007883 * b \<le> 2 ^ 54 * a)" by simp
    finally show ?thesis .
  next
    case small
    then have k1: "k \<le> - 54" and k2: "e + 1 - k \<le> 53" by (simp_all add: k_def)
    have "?x * 2 powi (- k) \<le> 2 powi (e + 1) * 2 powi (- k)"
      using less_imp_le[OF hi] by (rule mult_right_mono) simp
    also have "(2::real) powi (e + 1) * 2 powi (- k) = 2 powi (e + 1 - k)"
      by (simp add: power_int_add[symmetric])
    also have "\<dots> \<le> 2 powi 53" using k2 by (intro power_int_increasing) simp_all
    finally have "?x * 2 powi (- k) \<le> real_of_int (2 ^ 53)" by simp
    then have "r \<le> 2 ^ 53"
      unfolding r_def sq[symmetric] using den by (rule rhe_le_real[rotated])
    then have "real_of_int r \<le> real_of_int (2 ^ 53)" by (simp only: of_int_le_iff)
    then have "real_of_int r * 2 powi k \<le> real_of_int (2 ^ 53) * 2 powi k"
      by (rule mult_right_mono) simp
    then have "real_of_int r * 2 powi k \<le> 2 ^ 53 * 2 powi k" by simp
    also have "(2::real) powi k \<le> 2 powi (- 54)" using k1 by (intro power_int_increasing) simp_all
    then have "(2::real) ^ 53 * 2 powi k \<le> 2 ^ 53 * 2 powi (- 54)" by simp
    also have "(2::real) ^ 53 * 2 powi (- 54) = 1 / 2" by (simp add: power_int_minus_divide)
    finally have "real_of_int r * 2 powi k \<le> 1 / 2" .
    then have na: "\<not> accepted a b" by (simp add: acc)
    have "(2::real) powi (e + 1) \<le> 2 powi (- 1)"
      using small by (intro power_int_increasing) simp_all
    moreover have "(2::real) powi (- 1) = 1 / 2" by (simp add: power_int_minus_divide)
    ultimately have "?x < 1 / 2" using hi by linarith
    then have "\<not> c \<le> ?x" using c2 by linarith
    with na show ?thesis unfolding rhs by simp
  qed
qed

lemma rhe_nonneg: "0 < den \<Longrightarrow> 0 \<le> num \<Longrightarrow> 0 \<le> round_half_even num den"
  using rhe_ge[of den 0 num] by simp

lemma accepted_nonpos:
  assumes a: "a \<le> 0" and b: "0 < b"
  shows "\<not> accepted a b"
proof (cases "a = 0")
  case True
  then show ?thesis by (simp add: accepted_def float_div_def)
next
  case False
  with a have neg: "a < 0" by simp
  define k where "k = max (quotient_exponent \<bar>a\<bar> \<bar>b\<bar>) (- 1022) - 52"
  define r where "r = round_half_even (\<bar>a\<bar> * 2 ^ nat (- k)) (\<bar>b\<bar> * 2 ^ nat k)"
  have "0 \<le> r" unfolding r_def using b by (intro rhe_nonneg) simp_all
  then have "real_of_int (- r) * 2 powi k \<le> 0"
    by (simp add: mult_le_0_iff)
  moreover have "float_div a b = real_of_int (- r) * 2 powi k"
    using neg b unfolding float_div_def Let_def powi_two_if
    by (simp add: k_def r_def)
  ultimately show ?thesis by (simp add: accepted_def)
qed

lemma float_of_int_small:
  assumes "\<bar>n\<bar> < 2 ^ 53"
  shows "float_of_int n = Inr n"
proof -
  have "bitlen \<bar>n\<bar> \<le> 53"
    using assms by (simp add: bitlen_le_iff_power)
  then have sh: "nat (bitlen \<bar>n\<bar> - 53) = 0" by simp
  have r: "round_half_even \<bar>n\<bar> 1 = \<bar>n\<bar>"
    by (simp add: round_half_even_def)
  have lt: "\<bar>n\<bar> < 2 ^ 1024"
  proof -
    have "(2::int) ^ 53 \<le> 2 ^ 1024" by (rule power_increasing) simp_all
    with assms show ?thesis by linarith
  qed
  have "sgn n * \<bar>n\<bar> = n" by (simp add: sgn_if)
  with lt show ?thesis
    unfolding float_of_int_def Let_def sh by (simp add: r)
qed

lemma sufficient_fraction_double:
  assumes len: "0 < len" "len < 2 ^ 53" and ms: "\<bar>msize\<bar> < 2 ^ 53"
  shows "sufficient_fraction msize len = Inr (17113678584007883 * len \<le> 2 ^ 54 * msize)"
proof -
  have fl: "float_of_int len = Inr len" using len by (intro float_of_int_small) simp
  have fm: "float_of_int msize = Inr msize" using ms by (rule float_of_int_small)
  have "accepted msize len = (17113678584007883 * len \<le> 2 ^ 54 * msize)"
  proof (cases "0 < msize")
    case True
    then show ?thesis using len by (simp add: accepted_pos)
  next
    case False
    then have "\<not> accepted msize len" using len by (intro accepted_nonpos) simp_all
    moreover have "\<not> 17113678584007883 * len \<le> 2 ^ 54 * msize"
      using False len by simp
    ultimately show ?thesis by simp
  qed
  then show ?thesis using len by (simp add: sufficient_fraction_def fl fm)
qed

lemma threshold_exact:
  assumes "0 < len" "len \<le> 500399958596721"
  shows "(17113678584007883 * len \<le> 2 ^ 54 * msize) = (19 * len \<le> 20 * (msize::int))"
  using assms by simp linarith

lemma sufficient_fraction_exact:
  assumes len: "0 < len" "len \<le> 500399958596721" and ms: "\<bar>msize\<bar> < 2 ^ 53"
  shows "sufficient_fraction msize len = Inr (95 / 100 \<le> real_of_int msize / real_of_int len)"
proof -
  have "len < 2 ^ 53" using len by simp
  then have "sufficient_fraction msize len = Inr (17113678584007883 * len \<le> 2 ^ 54 * msize)"
    using len ms by (intro sufficient_fraction_double) simp_all
  also have "(17113678584007883 * len \<le> 2 ^ 54 * msize) = (19 * len \<le> 20 * msize)"
    using len by (rule threshold_exact)
  also have "(19 * len \<le> 20 * msize) = (real_of_int (19 * len) \<le> real_of_int (20 * msize))"
    by (simp only: of_int_le_iff)
  also have "\<dots> = (95 / 100 \<le> real_of_int msize / real_of_int len)"
    using len by (simp add: field_simps)
  finally show ?thesis .
qed

section \<open>Properties of the liftOver in the knowledge database\<close>

subsection \<open>The loop over the segments tries one chain after the other\<close>

lemma segs_loop_same_chain:
  "st_curr_chain st = Some c \<Longrightarrow> \<forall>s \<in> set g. seg_chain s = c \<Longrightarrow>
   segs_loop label start end extra st (g @ rest) =
     segs_loop label start end extra (foldl extend_chain st g) rest"
  by (induction g arbitrary: st) (auto simp: extend_chain_def)

lemma foldl_extend_fields:
  "st_curr_chain (foldl extend_chain st g) = st_curr_chain st"
  "st_first_seg (foldl extend_chain st g) = st_first_seg st"
  "st_mapped_reg (foldl extend_chain st g) = st_mapped_reg st"
  "st_total_mapped_sz (foldl extend_chain st g) = st_total_mapped_sz st + sum_list (map seg_len g)"
  "st_end_seg (foldl extend_chain st g) = (if g = [] then st_end_seg st else Some (last g))"
  by (induction g arbitrary: st; simp add: extend_chain_def seg_len_def)+

lemma map_state_group:
  assumes ne: "g \<noteq> []"
  shows "map_state label start end extra (foldl extend_chain (start_chain st (hd g)) (tl g))
    = liftOverRegionUsingChains label start end extra (hd g) (last g) (sum_list (map seg_len g))"
proof -
  let ?st = "foldl extend_chain (start_chain st (hd g)) (tl g)"
  have f: "st_first_seg ?st = Some (hd g)"
    by (simp add: foldl_extend_fields start_chain_def)
  have e: "st_end_seg ?st = Some (last g)"
    using ne by (cases g) (simp_all add: foldl_extend_fields start_chain_def)
  have t: "st_total_mapped_sz ?st = sum_list (map seg_len g)"
    using ne by (cases g) (simp_all add: foldl_extend_fields start_chain_def seg_len_def)
  show ?thesis
    unfolding map_state_def f e t by simp
qed

lemma loop_groups:
  "st_curr_chain st = Some c \<Longrightarrow> st_mapped_reg st = None \<Longrightarrow> st_first_seg st \<noteq> None \<Longrightarrow>
   \<forall>g \<in> set gs. one_chain g \<Longrightarrow>
   distinct_adj (c # map (\<lambda>g. seg_chain (hd g)) gs) \<Longrightarrow>
   loop_outcome label start end extra (segs_loop label start end extra st (concat gs)) None =
     (case map_state label start end extra st of
        Inl err \<Rightarrow> Inl err
      | Inr (Some m) \<Rightarrow> Inr (Some m)
      | Inr None \<Rightarrow> try_chains label start end extra gs)"
proof (induction gs arbitrary: st c)
  case Nil
  have "loop_outcome label start end extra (segs_loop label start end extra st (concat [])) None
          = after_loop label start end extra st"
    by (simp add: loop_outcome_def)
  also have "\<dots> = map_state label start end extra st"
    using Nil.prems(2,3) by (simp add: after_loop_def)
  finally have eq: "loop_outcome label start end extra
      (segs_loop label start end extra st (concat [])) None = map_state label start end extra st" .
  show ?case
    unfolding eq by (cases "map_state label start end extra st") (simp_all split: option.splits)
next
  case (Cons g gs)
  from Cons.prems(4) have gp: "one_chain g" by simp
  then obtain s g' where g: "g = s # g'" by (cases g) (simp_all add: one_chain_def)
  from gp g have same: "\<forall>x \<in> set g'. seg_chain x = seg_chain s" by (simp add: one_chain_def)
  from Cons.prems(5) g have ne: "seg_chain s \<noteq> c" by simp
  show ?case
  proof (cases "map_state label start end extra st")
    case (Inl err)
    with Cons.prems(1) ne g show ?thesis by (simp add: loop_outcome_def)
  next
    case (Inr m)
    show ?thesis
    proof (cases m)
      case (Some r)
      with Inr Cons.prems(1) ne g show ?thesis by (simp add: loop_outcome_def after_loop_def)
    next
      case None
      let ?st1 = "start_chain (st\<lparr>st_mapped_reg := None\<rparr>) s"
      let ?st2 = "foldl extend_chain ?st1 g'"
      have cc1: "st_curr_chain ?st1 = Some (seg_chain s)" by (simp add: start_chain_def)
      have step: "segs_loop label start end extra st (concat (g # gs))
          = segs_loop label start end extra ?st2 (concat gs)"
        using Cons.prems(1) ne Inr None g segs_loop_same_chain[OF cc1 same]
        by simp
      have p1: "st_curr_chain ?st2 = Some (seg_chain s)"
        by (simp add: foldl_extend_fields start_chain_def)
      have p2: "st_mapped_reg ?st2 = None"
        by (simp add: foldl_extend_fields start_chain_def)
      have p3: "st_first_seg ?st2 \<noteq> None"
        by (simp add: foldl_extend_fields start_chain_def)
      have p4: "\<forall>g \<in> set gs. one_chain g"
        using Cons.prems(4) by simp
      have p5: "distinct_adj (seg_chain s # map (\<lambda>g. seg_chain (hd g)) gs)"
        using Cons.prems(5) g by simp
      have ms: "map_state label start end extra ?st2 =
         liftOverRegionUsingChains label start end extra (hd g) (last g) (sum_list (map seg_len g))"
        using map_state_group[of g label start "end" extra "st\<lparr>st_mapped_reg := None\<rparr>"] g by simp
      show ?thesis
        using Cons.IH[OF p1 p2 p3 p4 p5] step ms Inr None by simp
    qed
  qed
qed

lemma loop_groups_err:
  "st_curr_chain st = Some c \<Longrightarrow> st_mapped_reg st = None \<Longrightarrow> st_first_seg st \<noteq> None \<Longrightarrow>
   \<forall>g \<in> set gs. one_chain g \<Longrightarrow>
   distinct_adj (c # map (\<lambda>g. seg_chain (hd g)) gs) \<Longrightarrow>
   loop_outcome label start end extra (segs_loop label start end extra st (concat gs)) (Some err) =
     (if gs = [] then Inl err
      else
        (case map_state label start end extra st of
           Inl e \<Rightarrow> Inl e
         | Inr (Some m) \<Rightarrow> Inr (Some m)
         | Inr None \<Rightarrow> try_stream label start end extra gs (Some err)))"
proof (induction gs arbitrary: st c)
  case Nil
  show ?case by (simp add: loop_outcome_def)
next
  case (Cons g gs)
  from Cons.prems(4) have gp: "one_chain g" by simp
  then obtain s g' where g: "g = s # g'" by (cases g) (simp_all add: one_chain_def)
  from gp g have same: "\<forall>x \<in> set g'. seg_chain x = seg_chain s" by (simp add: one_chain_def)
  from Cons.prems(5) g have ne: "seg_chain s \<noteq> c" by simp
  show ?case
  proof (cases "map_state label start end extra st")
    case (Inl e)
    with Cons.prems(1) ne g show ?thesis by (simp add: loop_outcome_def)
  next
    case (Inr m)
    show ?thesis
    proof (cases m)
      case (Some r)
      with Inr Cons.prems(1) ne g show ?thesis by (simp add: loop_outcome_def after_loop_def)
    next
      case None
      let ?st1 = "start_chain (st\<lparr>st_mapped_reg := None\<rparr>) s"
      let ?st2 = "foldl extend_chain ?st1 g'"
      have cc1: "st_curr_chain ?st1 = Some (seg_chain s)" by (simp add: start_chain_def)
      have step: "segs_loop label start end extra st (concat (g # gs))
          = segs_loop label start end extra ?st2 (concat gs)"
        using Cons.prems(1) ne Inr None g segs_loop_same_chain[OF cc1 same]
        by simp
      have p1: "st_curr_chain ?st2 = Some (seg_chain s)"
        by (simp add: foldl_extend_fields start_chain_def)
      have p2: "st_mapped_reg ?st2 = None"
        by (simp add: foldl_extend_fields start_chain_def)
      have p3: "st_first_seg ?st2 \<noteq> None"
        by (simp add: foldl_extend_fields start_chain_def)
      have p4: "\<forall>g \<in> set gs. one_chain g"
        using Cons.prems(4) by simp
      have p5: "distinct_adj (seg_chain s # map (\<lambda>g. seg_chain (hd g)) gs)"
        using Cons.prems(5) g by simp
      have ms: "map_state label start end extra ?st2 =
         liftOverRegionUsingChains label start end extra (hd g) (last g) (sum_list (map seg_len g))"
        using map_state_group[of g label start "end" extra "st\<lparr>st_mapped_reg := None\<rparr>"] g by simp
      have ih: "loop_outcome label start end extra
            (segs_loop label start end extra st (concat (g # gs))) (Some err) =
          (if gs = [] then Inl err
           else
             (case liftOverRegionUsingChains label start end extra (hd g) (last g)
                     (sum_list (map seg_len g)) of
                Inl e \<Rightarrow> Inl e
              | Inr (Some m) \<Rightarrow> Inr (Some m)
              | Inr None \<Rightarrow> try_stream label start end extra gs (Some err)))"
        using Cons.IH[OF p1 p2 p3 p4 p5] step ms by simp
      have ts: "try_stream label start end extra (g # gs) (Some err) =
          (if gs = [] then Inl err
           else
             (case liftOverRegionUsingChains label start end extra (hd g) (last g)
                     (sum_list (map seg_len g)) of
                Inl e \<Rightarrow> Inl e
              | Inr (Some m) \<Rightarrow> Inr (Some m)
              | Inr None \<Rightarrow> try_stream label start end extra gs (Some err)))"
        by (simp add: try_stream_def split: sum.splits option.splits)
      show ?thesis
        unfolding ih ts[symmetric] using Inr None by simp
    qed
  qed
qed

lemma first_group:
  assumes gp: "one_chain g"
  shows "\<exists>st c. segs_loop label start end extra init_state (concat (g # gs))
             = segs_loop label start end extra st (concat gs)
           \<and> st_curr_chain st = Some c \<and> c = seg_chain (hd g)
           \<and> st_mapped_reg st = None \<and> st_first_seg st \<noteq> None
           \<and> map_state label start end extra st =
               liftOverRegionUsingChains label start end extra (hd g) (last g) (sum_list (map seg_len g))"
proof -
  from gp obtain s g' where g: "g = s # g'" by (cases g) (simp_all add: one_chain_def)
  from gp g have same: "\<forall>x \<in> set g'. seg_chain x = seg_chain s" by (simp add: one_chain_def)
  let ?st1 = "start_chain (init_state :: ('a, 'b) lift_state) s"
  let ?st2 = "foldl extend_chain ?st1 g'"
  have cc1: "st_curr_chain ?st1 = Some (seg_chain s)" by (simp add: start_chain_def)
  have step: "segs_loop label start end extra init_state (concat (g # gs))
      = segs_loop label start end extra ?st2 (concat gs)"
    using g segs_loop_same_chain[OF cc1 same, of label start "end" extra "concat gs"]
    by (simp add: init_state_def)
  have p1: "st_curr_chain ?st2 = Some (seg_chain s)"
    by (simp add: foldl_extend_fields start_chain_def)
  have p2: "st_mapped_reg ?st2 = None"
    by (simp add: foldl_extend_fields start_chain_def init_state_def)
  have p3: "st_first_seg ?st2 \<noteq> None"
    by (simp add: foldl_extend_fields start_chain_def)
  have ms: "map_state label start end extra ?st2 =
     liftOverRegionUsingChains label start end extra (hd g) (last g) (sum_list (map seg_len g))"
    using map_state_group[of g label start "end" extra "init_state"] g by simp
  show ?thesis
    using step p1 p2 p3 ms g by (intro exI[of _ ?st2] exI[of _ "seg_chain s"]) simp
qed

lemma apply_chains_groups:
  assumes a: "\<forall>g \<in> set gs. one_chain g"
      and d: "distinct_adj (map (\<lambda>g. seg_chain (hd g)) gs)"
  shows "apply_chains label start end extra (concat gs, gen_err)
           = try_stream label start end extra gs gen_err"
proof (cases gs)
  case Nil
  then show ?thesis
    by (cases gen_err)
       (simp_all add: apply_chains_def loop_outcome_def after_loop_def init_state_def try_stream_def)
next
  case (Cons g gs')
  from a Cons have gp: "one_chain g" by simp
  from first_group[OF gp, of label start "end" extra gs']
  obtain st :: "('a, 'b) lift_state" and c where
        step: "segs_loop label start end extra init_state (concat (g # gs'))
             = segs_loop label start end extra st (concat gs')"
    and p1: "st_curr_chain st = Some c" and c: "c = seg_chain (hd g)"
    and p2: "st_mapped_reg st = None" and p3: "st_first_seg st \<noteq> None"
    and ms: "map_state label start end extra st =
               liftOverRegionUsingChains label start end extra (hd g) (last g) (sum_list (map seg_len g))"
    by blast
  have p4: "\<forall>g \<in> set gs'. one_chain g"
    using a Cons by simp
  have p5: "distinct_adj (c # map (\<lambda>g. seg_chain (hd g)) gs')"
    using d Cons c by simp
  show ?thesis
  proof (cases gen_err)
    case None
    show ?thesis
      using loop_groups[OF p1 p2 p3 p4 p5, of label start "end" extra] step ms Cons None
      by (simp add: apply_chains_def try_stream_def split: sum.splits option.splits)
  next
    case (Some err)
    have "try_stream label start end extra (g # gs') (Some err) =
          (if gs' = [] then Inl err
           else
             (case liftOverRegionUsingChains label start end extra (hd g) (last g)
                     (sum_list (map seg_len g)) of
                Inl e \<Rightarrow> Inl e
              | Inr (Some m) \<Rightarrow> Inr (Some m)
              | Inr None \<Rightarrow> try_stream label start end extra gs' (Some err)))"
      by (simp add: try_stream_def split: sum.splits option.splits)
    then show ?thesis
      using loop_groups_err[OF p1 p2 p3 p4 p5, of label start "end" extra err] step ms Cons Some
      by (simp add: apply_chains_def)
  qed
qed

subsection \<open>The generator yields the chains in the order of the keys\<close>

lemma chains_loop_groups:
  "chains_loop d start end ks = (case chain_groups d start end ks of (gs, err) \<Rightarrow> (concat gs, err))"
  by (induction ks) (auto split: sum.splits prod.splits)

lemma chain_group_chain:
  "chain_group d start end c = Inr g \<Longrightarrow> s \<in> set g \<Longrightarrow> seg_chain s = k_chain_id c"
  by (auto simp: chain_group_def yield_from_def mk_seg_def split: if_splits option.splits sum.splits)

lemma chain_group_one_chain:
  assumes cg: "chain_group d start end c = Inr g" and ne: "g \<noteq> []"
  shows "one_chain g" and "seg_chain (hd g) = k_chain_id c"
proof -
  have all: "\<forall>s \<in> set g. seg_chain s = k_chain_id c"
    using chain_group_chain[OF cg] by blast
  moreover have "hd g \<in> set g" using ne by simp
  ultimately show "seg_chain (hd g) = k_chain_id c" by blast
  with all ne show "one_chain g" by (simp add: one_chain_def)
qed

lemma distinct_distinct_adj: "distinct xs \<Longrightarrow> distinct_adj xs"
  by (induction xs) (auto simp: distinct_adj_Cons)

lemma chain_groups_props:
  "chain_groups d start end ks = (gs, err) \<Longrightarrow> distinct (map k_chain_id ks) \<Longrightarrow>
     (\<forall>g \<in> set gs. g \<noteq> [] \<longrightarrow> one_chain g \<and> seg_chain (hd g) \<in> k_chain_id ` set ks)
     \<and> distinct (map (\<lambda>g. seg_chain (hd g)) (filter (\<lambda>g. g \<noteq> []) gs))"
proof (induction ks arbitrary: gs err)
  case Nil
  then show ?case by simp
next
  case (Cons c ks)
  show ?case
  proof (cases "chain_group d start end c")
    case (Inl e)
    with Cons.prems show ?thesis by simp
  next
    case (Inr g)
    obtain gs' err' where rest: "chain_groups d start end ks = (gs', err')"
      by (cases "chain_groups d start end ks")
    from Cons.prems(1) Inr rest have gs: "gs = g # gs'" by simp
    from Cons.prems(2) have dk: "distinct (map k_chain_id ks)"
      and nk: "k_chain_id c \<notin> k_chain_id ` set ks" by simp_all
    from Cons.IH[OF rest dk]
    have ih1: "\<forall>g \<in> set gs'. g \<noteq> [] \<longrightarrow> one_chain g \<and> seg_chain (hd g) \<in> k_chain_id ` set ks"
      and ih2: "distinct (map (\<lambda>g. seg_chain (hd g)) (filter (\<lambda>g. g \<noteq> []) gs'))"
      by simp_all
    have heads: "seg_chain ` hd ` {g \<in> set gs'. g \<noteq> []} \<subseteq> k_chain_id ` set ks"
      using ih1 by auto
    show ?thesis
    proof (cases "g = []")
      case True
      with gs ih1 ih2 show ?thesis by auto
    next
      case False
      note g1 = chain_group_one_chain[OF Inr False]
      have "seg_chain (hd g) \<notin> seg_chain ` hd ` {g \<in> set gs'. g \<noteq> []}"
        using heads nk g1(2) by auto
      then have "distinct (map (\<lambda>g. seg_chain (hd g)) (filter (\<lambda>g. g \<noteq> []) (g # gs')))"
        using False ih2 by (auto simp: image_iff)
      moreover have "\<forall>x \<in> set (g # gs'). x \<noteq> [] \<longrightarrow>
          one_chain x \<and> seg_chain (hd x) \<in> k_chain_id ` set (c # ks)"
        using g1 ih1 by auto
      ultimately show ?thesis by (simp only: gs) 
    qed
  qed
qed

lemma concat_nonempty: "concat (filter (\<lambda>g. g \<noteq> []) xs) = concat xs"
  by (induction xs) auto

lemma generator_tries_groups:
  assumes idx: "idx chrom = Some (ks, d)"
      and dist: "distinct (map k_chain_id ks)"
  shows "apply_chains label start end extra (generateApplicableLiftOverChains idx chrom start end)
           = (case chain_groups d start end ks of
                (gs, err) \<Rightarrow> try_stream label start end extra (filter (\<lambda>g. g \<noteq> []) gs) err)"
proof -
  obtain gs err where cg: "chain_groups d start end ks = (gs, err)"
    by (cases "chain_groups d start end ks")
  let ?gs = "filter (\<lambda>g. g \<noteq> []) gs"
  have gen: "generateApplicableLiftOverChains idx chrom start end = (concat ?gs, err)"
    using idx cg by (simp add: generateApplicableLiftOverChains_def chains_loop_groups concat_nonempty)
  from chain_groups_props[OF cg dist]
  have uni: "\<forall>g \<in> set ?gs. one_chain g"
    and dd: "distinct (map (\<lambda>g. seg_chain (hd g)) ?gs)" by simp_all
  have adj: "distinct_adj (map (\<lambda>g. seg_chain (hd g)) ?gs)"
    using dd by (rule distinct_distinct_adj)
  show ?thesis
    unfolding gen cg using apply_chains_groups[OF uni adj] by simp
qed

subsection \<open>The only exception of the generator is the IndexError of the skipping loop\<close>

lemma skip_before_error: "skip_before data start i = Inl e \<Longrightarrow> e = IndexError"
proof (induction data start i rule: skip_before.induct)
  case (1 data start idx)
  then show ?case
    by (subst (asm) skip_before.simps) (auto split: if_splits)
qed

lemma chain_group_error:
  "chain_group d start end c = Inl e \<Longrightarrow> d c \<noteq> None \<Longrightarrow> e = IndexError"
  by (auto simp: chain_group_def dest: skip_before_error split: if_splits option.splits sum.splits)

lemma chain_groups_error:
  "chain_groups d start end ks = (gs, Some e) \<Longrightarrow> set ks \<subseteq> dom d \<Longrightarrow> e = IndexError"
proof (induction ks arbitrary: gs)
  case Nil
  then show ?case by simp
next
  case (Cons c ks)
  show ?case
  proof (cases "chain_group d start end c")
    case (Inl e')
    with Cons.prems have "e' = e" by simp
    moreover have "d c \<noteq> None" using Cons.prems(2) by auto
    ultimately show ?thesis using chain_group_error[OF Inl] by simp
  next
    case (Inr g)
    obtain gs' err' where rest: "chain_groups d start end ks = (gs', err')"
      by (cases "chain_groups d start end ks")
    with Cons.prems(1) Inr have "err' = Some e" by simp
    with rest Cons.IH[of gs'] Cons.prems(2) show ?thesis by simp
  qed
qed

subsection \<open>The index built from the tables\<close>

lemma add_row_inv:
  assumes inv: "\<And>chr ks d. idx chr = Some (ks, d) \<Longrightarrow> distinct ks \<and> set ks = dom d \<and> set ks \<subseteq> K"
      and row: "row_key row \<in> K"
      and new: "add_row idx row chr = Some (ks, d)"
  shows "distinct ks \<and> set ks = dom d \<and> set ks \<subseteq> K"
proof (cases "chr = old_chr (fst row)")
  case False
  then have "add_row idx row chr = idx chr"
    by (simp add: add_row_def Let_def split: option.splits prod.splits)
  with new have "idx chr = Some (ks, d)" by simp
  then show ?thesis by (rule inv)
next
  case True
  show ?thesis
  proof (cases "idx chr")
    case None
    with True new have "ks = [row_key row]" "d = [row_key row \<mapsto> [row_seg row]]"
      by (simp_all add: add_row_def Let_def)
    with row show ?thesis by simp
  next
    case (Some p)
    obtain ks0 d0 where p: "p = (ks0, d0)" by (cases p)
    from inv[of chr ks0 d0] Some p
    have i0: "distinct ks0" "set ks0 = dom d0" "set ks0 \<subseteq> K" by blast+
    show ?thesis
    proof (cases "d0 (row_key row)")
      case None
      then have "row_key row \<notin> set ks0" using i0(2) by auto
      moreover have "ks = ks0 @ [row_key row]" "d = d0(row_key row \<mapsto> [row_seg row])"
        using new True Some p None by (simp_all add: add_row_def Let_def)
      ultimately show ?thesis using i0 row by auto
    next
      case (Some segs)
      then have "row_key row \<in> dom d0" by auto
      moreover have "ks = ks0" "d = d0(row_key row \<mapsto> segs @ [row_seg row])"
        using new True \<open>idx chr = Some p\<close> p Some by (simp_all add: add_row_def Let_def)
      ultimately show ?thesis using i0 by auto
    qed
  qed
qed

lemma foldl_add_row_inv:
  "foldl add_row Map.empty rows chr = Some (ks, d) \<Longrightarrow>
     distinct ks \<and> set ks = dom d \<and> set ks \<subseteq> row_key ` set rows"
proof (induction rows arbitrary: chr ks d rule: rev_induct)
  case Nil
  then show ?case by simp
next
  case (snoc row rows)
  have inv: "\<And>chr ks d. foldl add_row Map.empty rows chr = Some (ks, d) \<Longrightarrow>
      distinct ks \<and> set ks = dom d \<and> set ks \<subseteq> row_key ` set (rows @ [row])"
    using snoc.IH by fastforce
  have new: "add_row (foldl add_row Map.empty rows) row chr = Some (ks, d)"
    using snoc.prems by simp
  show ?case
    by (rule add_row_inv[OF inv _ new]) simp_all
qed

lemma build_index_keys:
  assumes "build_index rows chrom = Some (ks, d)"
  shows "distinct ks" and "set ks \<subseteq> dom d" and "set ks \<subseteq> row_key ` set rows"
proof -
  from assms obtain ks0 where f: "foldl add_row Map.empty rows chrom = Some (ks0, d)"
    and ks: "ks = rev (sort ks0)"
    by (auto simp: build_index_def sort_keys_def split: option.splits)
  from foldl_add_row_inv[OF f]
  have "distinct ks0" and "set ks0 = dom d" and "set ks0 \<subseteq> row_key ` set rows"
    by blast+
  with ks show "distinct ks" and "set ks \<subseteq> dom d" and "set ks \<subseteq> row_key ` set rows"
    by simp_all
qed

lemma index_query_rows:
  "(c, cd) \<in> set (index_query cs cds oldHG newHG) \<Longrightarrow> c \<in> set cs"
  by (auto simp: index_query_def chain_join_def)

lemma index_chain_ids:
  assumes pk: "distinct (map chain_id cs)"
      and idx: "build_index (index_query cs cds oldHG newHG) chrom = Some (ks, d)"
  shows "distinct (map k_chain_id ks)"
proof -
  note keys = build_index_keys[OF idx]
  have "inj_on k_chain_id (set ks)"
  proof (rule inj_onI)
    fix k1 k2
    assume k1: "k1 \<in> set ks" and k2: "k2 \<in> set ks" and eq: "k_chain_id k1 = k_chain_id k2"
    from k1 keys(3) obtain c1 cd1 where r1: "(c1, cd1) \<in> set (index_query cs cds oldHG newHG)"
      and e1: "k1 = row_key (c1, cd1)" by auto
    from k2 keys(3) obtain c2 cd2 where r2: "(c2, cd2) \<in> set (index_query cs cds oldHG newHG)"
      and e2: "k2 = row_key (c2, cd2)" by auto
    have "chain_id c1 = chain_id c2"
      using eq e1 e2 by (simp add: row_key_def k_chain_id_def)
    moreover have "c1 \<in> set cs" "c2 \<in> set cs"
      using r1 r2 by (auto dest: index_query_rows)
    ultimately have "c1 = c2"
      using pk by (auto simp: distinct_map inj_on_def)
    then show "k1 = k2" using e1 e2 by (simp add: row_key_def)
  qed
  with keys(1) show ?thesis by (simp add: distinct_map)
qed

subsection \<open>The keys of a chromosome are in descending order of score\<close>

lemma key_le_score: "(a :: chain_key) \<le> b \<Longrightarrow> k_score a \<le> k_score b"
  by (cases a; cases b) (auto simp: k_score_def less_eq_prod_def)

lemma sorted_scores: "sorted (xs :: chain_key list) \<Longrightarrow> sorted (map k_score xs)"
  by (induction xs) (auto simp: key_le_score)

lemma build_index_scores:
  assumes "build_index rows chrom = Some (ks, d)"
  shows "sorted (rev (map k_score ks))"
proof -
  from assms obtain ks0 where "ks = rev (sort ks0)"
    by (auto simp: build_index_def sort_keys_def split: option.splits)
  then show ?thesis
    by (simp add: rev_map[symmetric] sorted_scores)
qed

subsection \<open>The mapping through one chain\<close>

lemma mapping_formula:
  "liftOverRegionUsingChains label start end extra f e t =
     (let fd = clamp (start - seg_old_start f) 0 (seg_len f - 1);
          ed = clamp (end - seg_old_start e) 0 (seg_len e - 1)
      in case sufficient_fraction (t - fd - seg_len e + ed + 1) (end - start + 1) of
           Inl err \<Rightarrow> Inl err
         | Inr enough \<Rightarrow>
             Inr (if enough
                  then Some (label, seg_new_chr f,
                         (if seg_is_fwd f \<noteq> 0 then seg_new_start f + fd else seg_new_start e - ed),
                         (if seg_is_fwd f \<noteq> 0 then seg_new_start e + ed else seg_new_start f - fd), extra)
                  else None))"
  by (simp add: liftOverRegionUsingChains_def mapped_size_def new_coords_def
      front_diff_def end_diff_def clamp_def seg_len_def Let_def split: sum.splits)

subsection \<open>Claims about the liftOver\<close>

text \<open>
  C1 (as amended). With \<open>chain_id\<close> the primary key of \<open>chain\<close>, a region is mapped through
  the chains of its chromosome in the order of their keys, which is the descending order of
  score: the result is the first accepted mapping, each chain being mapped from its first
  and last yielded segment and the sum of the lengths \<open>old_end - old_start + 1\<close> of its
  yielded segments. The only exception of the generator is the IndexError of its skipping
  loop; when a chain raises it, the chain read last before it is not tried, and the
  exception is the outcome unless an earlier chain was accepted. The mapping through one
  chain has \<open>front_diff = clamp (start - first_seg.old_start) 0 (first_seg.length - 1)\<close>
  and \<open>end_diff = clamp (end - end_seg.old_start) 0 (end_seg.length - 1)\<close>, the new
  coordinates are \<open>first_seg.new_start + front_diff\<close> and \<open>end_seg.new_start + end_diff\<close>
  on a forward chain and \<open>end_seg.new_start - end_diff\<close> and
  \<open>first_seg.new_start - front_diff\<close> otherwise, and it is accepted when the float quotient
  of \<open>total - front_diff - end_seg.length + end_diff + 1\<close> by \<open>end - start + 1\<close> is at least the
  float 0.95; for a region of at most 500399958596721 bases and a mapped size below \<open>2^53\<close>
  in magnitude that is exactly when the quotient is at least 95/100.
\<close>

theorem liftOver_chain_mapping:
  assumes pk: "distinct (map chain_id cs)"
      and cache: "liftOverCache cs cds oldHG newHG = Inr idx"
  shows "apply_chains label start end extra (generateApplicableLiftOverChains idx chrom start end)
           = (case idx chrom of
                None \<Rightarrow> Inr None
              | Some (ks, d) \<Rightarrow>
                  (case chain_groups d start end ks of
                     (gs, err) \<Rightarrow> try_stream label start end extra (filter (\<lambda>g. g \<noteq> []) gs) err))
       \<and> (\<forall>ks d. idx chrom = Some (ks, d) \<longrightarrow>
             sorted (rev (map k_score ks))
             \<and> (\<forall>gs e. chain_groups d start end ks = (gs, Some e) \<longrightarrow> e = IndexError))
       \<and> (\<forall>f e t. liftOverRegionUsingChains label start end extra f e t =
            (let fd = clamp (start - seg_old_start f) 0 (seg_len f - 1);
                 ed = clamp (end - seg_old_start e) 0 (seg_len e - 1)
             in case sufficient_fraction (t - fd - seg_len e + ed + 1) (end - start + 1) of
                  Inl err \<Rightarrow> Inl err
                | Inr enough \<Rightarrow>
                    Inr (if enough
                         then Some (label, seg_new_chr f,
                                (if seg_is_fwd f \<noteq> 0 then seg_new_start f + fd else seg_new_start e - ed),
                                (if seg_is_fwd f \<noteq> 0 then seg_new_start e + ed else seg_new_start f - fd), extra)
                         else None)))
       \<and> (\<forall>msize len. 0 < len \<and> len \<le> 500399958596721 \<and> \<bar>msize\<bar> < 2 ^ 53 \<longrightarrow>
             sufficient_fraction msize len = Inr (95 / 100 \<le> real_of_int msize / real_of_int len))"
proof (intro conjI allI impI)
  have idx: "idx = build_index (index_query cs cds oldHG newHG)"
    using cache by (simp add: liftOverCache_def split: if_splits)
  show "apply_chains label start end extra (generateApplicableLiftOverChains idx chrom start end)
           = (case idx chrom of
                None \<Rightarrow> Inr None
              | Some (ks, d) \<Rightarrow>
                  (case chain_groups d start end ks of
                     (gs, err) \<Rightarrow> try_stream label start end extra (filter (\<lambda>g. g \<noteq> []) gs) err))"
  proof (cases "idx chrom")
    case None
    then show ?thesis
      by (simp add: generateApplicableLiftOverChains_def apply_chains_def loop_outcome_def
          after_loop_def init_state_def)
  next
    case (Some p)
    obtain ks d where p: "p = (ks, d)" by (cases p)
    have i: "idx chrom = Some (ks, d)" using Some p by simp
    have dist: "distinct (map k_chain_id ks)"
      using index_chain_ids[OF pk] i unfolding idx by blast
    show ?thesis
      using generator_tries_groups[where idx = idx and chrom = chrom, OF i dist,
          of label start "end" extra] i
      by simp
  qed
  {
    fix ks d
    assume i: "idx chrom = Some (ks, d)"
    show "sorted (rev (map k_score ks))"
      using i unfolding idx by (rule build_index_scores)
    fix gs e
    assume cg: "chain_groups d start end ks = (gs, Some e)"
    have "set ks \<subseteq> dom d" using build_index_keys(2) i unfolding idx by blast
    with cg show "e = IndexError" by (rule chain_groups_error)
  }
next
  fix f e t
  show "liftOverRegionUsingChains label start end extra f e t =
            (let fd = clamp (start - seg_old_start f) 0 (seg_len f - 1);
                 ed = clamp (end - seg_old_start e) 0 (seg_len e - 1)
             in case sufficient_fraction (t - fd - seg_len e + ed + 1) (end - start + 1) of
                  Inl err \<Rightarrow> Inl err
                | Inr enough \<Rightarrow>
                    Inr (if enough
                         then Some (label, seg_new_chr f,
                                (if seg_is_fwd f \<noteq> 0 then seg_new_start f + fd else seg_new_start e - ed),
                                (if seg_is_fwd f \<noteq> 0 then seg_new_start e + ed else seg_new_start f - fd), extra)
                         else None))"
    by (rule mapping_formula)
next
  fix msize len :: int
  assume "0 < len \<and> len \<le> 500399958596721 \<and> \<bar>msize\<bar> < 2 ^ 53"
  then show "sufficient_fraction msize len = Inr (95 / 100 \<le> real_of_int msize / real_of_int len)"
    by (intro sufficient_fraction_exact) simp_all
qed

theorem liftOver_chain_mapping_witness:
  "apply_chains ''r'' 1200 1800 ()
      (generateApplicableLiftOverChains (build_index (index_query two_chains three_data 18 19)) 1 1200 1800)
     = Inr (Some (''r'', 2, 8200, 8800, ()))
   \<and> apply_chains ''r'' 1200 1800 ()
      (generateApplicableLiftOverChains (build_index (index_query three_chains three_data 18 19)) 1 1200 1800)
     = Inl IndexError
   \<and> sufficient_fraction 502 601 = Inr False
   \<and> sufficient_fraction 601 601 = Inr True"
proof -
  have pk2: "distinct (map chain_id two_chains)"
    by (simp add: two_chains_def)
  have pk3: "distinct (map chain_id three_chains)"
    by (simp add: three_chains_def two_chains_def)
  have c2: "liftOverCache two_chains three_data 18 19
      = Inr (build_index (index_query two_chains three_data 18 19))"
    by (simp add: liftOverCache_def in_int64_def)
  have c3: "liftOverCache three_chains three_data 18 19
      = Inr (build_index (index_query three_chains three_data 18 19))"
    by (simp add: liftOverCache_def in_int64_def)
  have r2: "(case build_index (index_query two_chains three_data 18 19) 1 of
               None \<Rightarrow> Inr None
             | Some (ks, d) \<Rightarrow>
                 (case chain_groups d 1200 1800 ks of
                    (gs, err) \<Rightarrow> try_stream ''r'' 1200 1800 () (filter (\<lambda>g. g \<noteq> []) gs) err))
      = Inr (Some (''r'', 2, 8200, 8800, ()))"
    by code_simp
  have r3: "(case build_index (index_query three_chains three_data 18 19) 1 of
               None \<Rightarrow> Inr None
             | Some (ks, d) \<Rightarrow>
                 (case chain_groups d 1200 1800 ks of
                    (gs, err) \<Rightarrow> try_stream ''r'' 1200 1800 () (filter (\<lambda>g. g \<noteq> []) gs) err))
      = Inl IndexError"
    by code_simp
  note t2 = liftOver_chain_mapping[OF pk2 c2, of "''r''" 1200 1800 "()" 1]
  note t3 = liftOver_chain_mapping[OF pk3 c3, of "''r''" 1200 1800 "()" 1]
  have a: "apply_chains ''r'' 1200 1800 ()
      (generateApplicableLiftOverChains (build_index (index_query two_chains three_data 18 19)) 1 1200 1800)
     = Inr (Some (''r'', 2, 8200, 8800, ()))"
    using t2 r2 by simp
  have b: "apply_chains ''r'' 1200 1800 ()
      (generateApplicableLiftOverChains (build_index (index_query three_chains three_data 18 19)) 1 1200 1800)
     = Inl IndexError"
    using t3 r3 by simp
  from t2 have th: "\<forall>msize len. 0 < len \<and> len \<le> 500399958596721 \<and> \<bar>msize\<bar> < 2 ^ 53 \<longrightarrow>
             sufficient_fraction msize len = Inr (95 / 100 \<le> real_of_int msize / real_of_int len)"
    by blast
  have c: "sufficient_fraction 502 601 = Inr False"
    using th[rule_format, of 601 502] by simp
  have d: "sufficient_fraction 601 601 = Inr True"
    using th[rule_format, of 601 601] by simp
  from a b c d show ?thesis by blast
qed

text \<open>
  C1 as stated takes \<open>old_end - old_start + 1\<close> for the length of a segment also in the
  bound of the two clamps. A region that ends after its last segment then gets an
  \<open>end_diff\<close>, and a new end, one larger than the code computes.
\<close>

theorem liftOver_clamp_bound_counterexample:
  "liftOverRegionUsingChains ''r'' 1000 1510 () c8_seg1 c8_seg1 (seg_len c8_seg1)
     = Inr (Some (''r'', 1, 5000, 5500, ()))
   \<and> end_diff 1510 c8_seg1 = 500
   \<and> spec_end_diff 1510 c8_seg1 = 501
   \<and> seg_new_start c8_seg1 + spec_end_diff 1510 c8_seg1 = 5501"
  by code_simp

text \<open>
  C8 (as amended). For the chain with segments (1000,1500,5000) and (1600,2000,5600) and
  the region (1200, 1800) the generator yields both segments, \<open>front_diff = 200\<close>,
  \<open>end_diff = 200\<close>, the new coordinates are 5200 and 5800, the total of the segment lengths
  is 902 and the mapped size is 502; 502/601 is below 0.95, so the region is handed to the
  error callback and not yielded.
\<close>

theorem liftOver_scenario:
  "generateApplicableLiftOverChains (build_index (index_query [c8_chain] c8_data 18 19)) 1 1200 1800
     = ([c8_seg1, c8_seg2], None)
   \<and> front_diff 1200 c8_seg1 = 200
   \<and> end_diff 1800 c8_seg2 = 200
   \<and> new_coords 1200 1800 c8_seg1 c8_seg2 = (5200, 5800)
   \<and> sum_list (map seg_len [c8_seg1, c8_seg2]) = 902
   \<and> mapped_size 1200 1800 c8_seg1 c8_seg2 902 = 502
   \<and> \<not> accepted 502 601
   \<and> generateLiftOverRegions [c8_chain] c8_data 18 19 [(''r'', 1, 1200, 1800, ())]
       = Inr \<lparr> yielded = [], dropped = [(''r'', 1, 1200, 1800, ())], numNull = 1, numLift = 0 \<rparr>"
  by code_simp

text \<open>C8 as stated gives 501 for the mapped size of that scenario.\<close>

theorem liftOver_scenario_counterexample:
  "generateApplicableLiftOverChains (build_index (index_query [c8_chain] c8_data 18 19)) 1 1200 1800
     = ([c8_seg1, c8_seg2], None)
   \<and> mapped_size 1200 1800 c8_seg1 c8_seg2 (sum_list (map seg_len [c8_seg1, c8_seg2])) \<noteq> 501"
  by code_simp

section \<open>Properties of the standalone liftOver\<close>









section \<open>Properties of the merge resolution\<close>






end
